theory Spec2Isabelle
  imports Complex_Main "HOL-Library.AList" "HOL-Library.List_Lexorder" "HOL-Library.Char_ord"
begin

section \<open>Lot sizing (advanced\_mrp.py, apply\_lot\_sizing)\<close>

text \<open>
  The function works on the numbers it is given; the quantities of the sample data and
  of the lot-size table are Python integers, so \<open>%\<close> is the floor modulus of
  \<^typ>\<open>int\<close> (the sign of the result follows the divisor, as in Python).
\<close>

definition apply_lot_sizing :: "int \<Rightarrow> int \<Rightarrow> int \<Rightarrow> int" where
  "apply_lot_sizing quantity min_lot_size lot_multiple =
     (if quantity \<le> 0 then 0
      else let adjusted_quantity = max quantity min_lot_size
           in if lot_multiple > 1
              then (let remainder = adjusted_quantity mod lot_multiple
                    in if remainder > 0
                       then adjusted_quantity + (lot_multiple - remainder)
                       else adjusted_quantity)
              else adjusted_quantity)"

section \<open>Material classification (advanced\_mrp.py, classify\_materials)\<close>

record bom_row =
  parent_code :: string
  child_code :: string
  usage :: real

record inventory_row =
  material_code :: string
  stock :: real
  safety :: real

datatype material_type = Raw | Finished | Intermediate | Unknown

text \<open>
  The result table has one row per element of the Python set \<open>all_materials\<close>; the
  order of iteration over a set is not fixed, so the table is modelled as the map from
  material code to label (no row: \<open>None\<close>).
\<close>

definition classify_materials ::
  "bom_row list \<Rightarrow> inventory_row list \<Rightarrow> string \<Rightarrow> material_type option" where
  "classify_materials bom_data inventory_data =
     (let all_materials = set (map material_code inventory_data);
          all_parents = set (map parent_code bom_data);
          all_children = set (map child_code bom_data);
          raw_materials = all_materials \<inter> (all_children - all_parents);
          finished_goods = all_materials \<inter> (all_parents - all_children);
          intermediate_materials = all_materials \<inter> all_parents \<inter> all_children
      in (\<lambda>material.
            if material \<in> all_materials
            then Some (if material \<in> raw_materials then Raw
                       else if material \<in> finished_goods then Finished
                       else if material \<in> intermediate_materials then Intermediate
                       else Unknown)
            else None))"

section \<open>BOM tree construction (build\_bom\_tree)\<close>

text \<open>
  A BOM tree is the Python dict \<open>child code \<mapsto> {quantity, level, children}\<close>. Dicts keep
  insertion order and an assignment to a key already present replaces its value in place;
  that is \<^const>\<open>AList.update\<close> on an association list.
\<close>

datatype bom_node =
  BomNode (node_quantity: real) (node_level: nat) (node_children: "(string \<times> bom_node) list")

type_synonym bom_tree = "(string \<times> bom_node) list"

datatype mrp_error =
    CircularReference "string list"
  | NoOptimalSolution string
  | EmptyRequirements

text \<open>
  The body of the \<open>for _, row in children.iterrows()\<close> loop: the recursive call is \<open>f row\<close>;
  an exception raised by it leaves the loop at once.
\<close>

fun for_children ::
  "(bom_row \<Rightarrow> mrp_error + bom_tree) \<Rightarrow> nat \<Rightarrow> bom_row list \<Rightarrow> bom_tree \<Rightarrow> mrp_error + bom_tree" where
  "for_children f level [] result = Inr result"
| "for_children f level (row # rows) result =
     (case f row of
        Inl e \<Rightarrow> Inl e
      | Inr child_tree \<Rightarrow>
          for_children f level rows
            (AList.update (child_code row)
               (BomNode (usage row) (level + 1) child_tree) result))"

lemma for_children_cong [fundef_cong]:
  "rows = rows' \<Longrightarrow> (\<And>row. row \<in> set rows' \<Longrightarrow> f row = g row) \<Longrightarrow>
   for_children f level rows result = for_children g level rows' result"
proof (induction rows' arbitrary: rows result)
  case Nil
  then show ?case by simp
next
  case (Cons r rs)
  then show ?case by (cases "g r") auto
qed

function build_bom_tree ::
  "string \<Rightarrow> bom_row list \<Rightarrow> nat \<Rightarrow> string list \<Rightarrow> mrp_error + bom_tree" where
  "build_bom_tree parent_item bom_data level path =
     (if parent_item \<in> set path then Inl (CircularReference (path @ [parent_item]))
      else for_children
             (\<lambda>row. build_bom_tree (child_code row) bom_data (level + 1) (path @ [parent_item]))
             level (filter (\<lambda>row. parent_code row = parent_item) bom_data) [])"
  by pat_completeness auto
termination
proof (relation "measure (\<lambda>(parent_item, bom_data, level, path).
                    card (set (map parent_code bom_data) - set path))")
  show "wf (measure (\<lambda>(parent_item, bom_data, level, path).
                    card (set (map parent_code bom_data) - set path)))"
    by simp
next
  fix parent_item :: string and bom_data :: "bom_row list" and level :: nat
    and path :: "string list" and row :: bom_row
  assume fresh: "parent_item \<notin> set path"
    and row: "row \<in> set (filter (\<lambda>row. parent_code row = parent_item) bom_data)"
  let ?P = "set (map parent_code bom_data)"
  have "parent_item \<in> ?P - set path" using fresh row by auto
  moreover have "?P - set (path @ [parent_item]) = (?P - set path) - {parent_item}" by auto
  moreover have "finite (?P - set path)" by simp
  ultimately have "card (?P - set (path @ [parent_item])) < card (?P - set path)"
    using card_Diff1_less [of "?P - set path" parent_item] by simp
  then show "((child_code row, bom_data, level + 1, path @ [parent_item]),
              (parent_item, bom_data, level, path))
             \<in> measure (\<lambda>(parent_item, bom_data, level, path).
                    card (set (map parent_code bom_data) - set path))"
    by simp
qed

declare build_bom_tree.simps [simp del]

section \<open>Demand explosion (get\_all\_requirements)\<close>

record requirement =
  req_item :: string
  req_quantity :: real
  req_date :: int
  req_level :: nat

text \<open>
  Dates are day numbers, so \<open>pd.to_datetime(date) - pd.Timedelta(days=n)\<close> is \<open>date - n\<close>.
  \<open>production_lead_time_map.get(item, 0)\<close> reads the dict built from the lead-time table.
\<close>

definition dict_get :: "('k \<rightharpoonup> 'v) \<Rightarrow> 'k \<Rightarrow> 'v \<Rightarrow> 'v" where
  "dict_get m k d = (case m k of None \<Rightarrow> d | Some v \<Rightarrow> v)"

lemma size_node_children [termination_simp]:
  "(c, n) \<in> set t \<Longrightarrow>
   size_list (size_prod (\<lambda>_. 0) size) (node_children n) < size_list (size_prod (\<lambda>_. 0) size) t"
proof (induction t)
  case Nil
  then show ?case by simp
next
  case (Cons a t)
  then show ?case by (cases n) auto
qed

text \<open>advanced\_mrp.py: the node's own date is moved by its production lead time first.\<close>

function get_all_requirements ::
  "(string \<rightharpoonup> int) \<Rightarrow> string \<Rightarrow> real \<Rightarrow> int \<Rightarrow> bom_tree \<Rightarrow> nat \<Rightarrow> requirement list" where
  "get_all_requirements production_lead_time_map item quantity date bom_tree_node level =
     (let prod_lead_time = dict_get production_lead_time_map item 0;
          adjusted_date = date - prod_lead_time
      in \<lparr>req_item = item, req_quantity = quantity, req_date = adjusted_date, req_level = level\<rparr> #
         concat (map (\<lambda>(child_item, child_info).
                        get_all_requirements production_lead_time_map child_item
                          (quantity * node_quantity child_info) adjusted_date
                          (node_children child_info) (level + 1))
                     bom_tree_node))"
  by pat_completeness auto
termination
  by (relation "measure (\<lambda>(m, item, quantity, date, t, level).
                   size_list (size_prod (\<lambda>_. 0) size) t)")
     (auto dest: size_node_children)

declare get_all_requirements.simps [simp del]

text \<open>app.py: no lead-time table; every child is moved a fixed seven days before its parent.\<close>

function app_get_all_requirements ::
  "string \<Rightarrow> real \<Rightarrow> int \<Rightarrow> bom_tree \<Rightarrow> nat \<Rightarrow> requirement list" where
  "app_get_all_requirements item quantity date bom_tree_node level =
     \<lparr>req_item = item, req_quantity = quantity, req_date = date, req_level = level\<rparr> #
     concat (map (\<lambda>(child_item, child_info).
                    app_get_all_requirements child_item
                      (quantity * node_quantity child_info) (date - 7)
                      (node_children child_info) (level + 1))
                 bom_tree_node)"
  by pat_completeness auto
termination
  by (relation "measure (\<lambda>(item, quantity, date, t, level).
                   size_list (size_prod (\<lambda>_. 0) size) t)")
     (auto dest: size_node_children)

declare app_get_all_requirements.simps [simp del]

section \<open>Capacity check (advanced\_mrp.py, check\_capacity\_constraints)\<close>

text \<open>
  The rows returned by \<open>calculate_advanced_mrp\<close>; one field per column. The tables are
  lists of typed rows, so the two checks for missing columns at the head of
  \<open>check_capacity_constraints\<close> cannot fail and are left out.
\<close>

record mrp_row =
  mrp_item :: string
  period :: int
  order_date :: int
  gross_demand :: real
  opening_inventory :: real
  safety_stock :: real
  po_receipt :: real
  net_quantity :: real
  closing_inventory :: real
  production_lead_time :: int
  purchase_lead_time :: int

record capacity_row =
  cap_resource :: string
  cap_date :: int
  available :: real

record resource_requirement_row =
  rr_item :: string
  rr_resource :: string
  unit_usage :: real

text \<open>
  A capacity of \<open>float('inf')\<close> is \<open>None\<close>: nothing exceeds it, and
  \<open>max(0, usage - inf)\<close> is 0.
\<close>

record capacity_check_row =
  cc_resource :: string
  cc_date :: int
  cc_usage :: real
  cc_capacity :: "real option"
  cc_violated :: bool
  cc_overage :: real

text \<open>
  Dicts of dicts. \<open>if k1 not in m: m[k1] = {}\<close> followed by \<open>m[k1][k2] = v\<close> keeps the
  place of an outer key that is present and appends one that is new.
\<close>

type_synonym ('a, 'b, 'v) dict2 = "('a \<times> ('b \<times> 'v) list) list"

definition inner_dict :: "('a, 'b, 'v) dict2 \<Rightarrow> 'a \<Rightarrow> ('b \<times> 'v) list" where
  "inner_dict m k1 = (case map_of m k1 of None \<Rightarrow> [] | Some d \<Rightarrow> d)"

definition lookup2 :: "('a, 'b, 'v) dict2 \<Rightarrow> 'a \<Rightarrow> 'b \<Rightarrow> 'v option" where
  "lookup2 m k1 k2 = map_of (inner_dict m k1) k2"

definition nested_set :: "('a, 'b, 'v) dict2 \<Rightarrow> 'a \<Rightarrow> 'b \<Rightarrow> 'v \<Rightarrow> ('a, 'b, 'v) dict2" where
  "nested_set m k1 k2 v = AList.update k1 (AList.update k2 v (inner_dict m k1)) m"

text \<open>
  \<open>if date not in m[r]: m[r][date] = 0\<close> followed by \<open>m[r][date] += total_usage\<close>.
\<close>

definition nested_add :: "('a, 'b, real) dict2 \<Rightarrow> 'a \<Rightarrow> 'b \<Rightarrow> real \<Rightarrow> ('a, 'b, real) dict2" where
  "nested_add m k1 k2 x =
     nested_set m k1 k2 ((case lookup2 m k1 k2 of None \<Rightarrow> 0 | Some c \<Rightarrow> c) + x)"

definition build_resource_req_map ::
  "resource_requirement_row list \<Rightarrow> (string, string, real) dict2" where
  "build_resource_req_map resource_requirements =
     foldl (\<lambda>m row. nested_set m (rr_item row) (rr_resource row) (unit_usage row))
       [] resource_requirements"

definition build_capacity_map :: "capacity_row list \<Rightarrow> (string, int, real) dict2" where
  "build_capacity_map capacity_constraints =
     foldl (\<lambda>m row. nested_set m (cap_resource row) (cap_date row) (available row))
       [] capacity_constraints"

text \<open>The loop over the result rows, with the loop over the resources of the row's item inside.\<close>

definition add_row_usage ::
  "(string, string, real) dict2 \<Rightarrow> (string, int, real) dict2 \<Rightarrow> mrp_row \<Rightarrow> (string, int, real) dict2" where
  "add_row_usage resource_req_map resource_usage row =
     (case map_of resource_req_map (mrp_item row) of
        None \<Rightarrow> resource_usage
      | Some resources \<Rightarrow>
          foldl (\<lambda>u (resource, usage_per_unit).
                   nested_add u resource (period row) (net_quantity row * usage_per_unit))
            resource_usage resources)"

definition build_resource_usage ::
  "(string, string, real) dict2 \<Rightarrow> mrp_row list \<Rightarrow> (string, int, real) dict2" where
  "build_resource_usage resource_req_map mrp_results =
     foldl (add_row_usage resource_req_map) [] mrp_results"

definition capacity_check_result ::
  "(string, int, real) dict2 \<Rightarrow> string \<Rightarrow> int \<Rightarrow> real \<Rightarrow> capacity_check_row" where
  "capacity_check_result capacity_map resource date u =
     (let capacity = lookup2 capacity_map resource date
      in \<lparr>cc_resource = resource, cc_date = date, cc_usage = u, cc_capacity = capacity,
          cc_violated = (case capacity of None \<Rightarrow> False | Some c \<Rightarrow> u > c),
          cc_overage = (case capacity of None \<Rightarrow> 0 | Some c \<Rightarrow> max 0 (u - c))\<rparr>)"

definition check_capacity_constraints ::
  "mrp_row list \<Rightarrow> capacity_row list \<Rightarrow> resource_requirement_row list \<Rightarrow> capacity_check_row list" where
  "check_capacity_constraints mrp_results capacity_constraints resource_requirements =
     (let resource_req_map = build_resource_req_map resource_requirements;
          capacity_map = build_capacity_map capacity_constraints;
          resource_usage = build_resource_usage resource_req_map mrp_results
      in concat (map (\<lambda>(resource, dates).
                        map (\<lambda>(date, u). capacity_check_result capacity_map resource date u) dates)
                   resource_usage))"

section \<open>The planning run (advanced\_mrp.py, calculate\_advanced\_mrp)\<close>




record lot_size_row =
  ls_item :: string
  min_lot :: real
  lot_multiple :: real






























section \<open>Cycle check of the validator (utils.py, check\_bom\_circular\_reference)\<close>

text \<open>
  The validator reads the parent and child columns only. \<open>dependency_graph\<close> is the dict
  from a parent to the list of its children in the order of the rows. \<open>check_cycle\<close>
  raises at the first repeated material; the message holds the path from the first
  occurrence of that material on. \<open>first_error\<close> is the loop that the first exception
  leaves.
\<close>

definition build_dependency_graph :: "(string \<times> string) list \<Rightarrow> (string \<times> string list) list" where
  "build_dependency_graph rows =
     foldl (\<lambda>dependency_graph (parent, child).
              AList.update parent (dict_get (map_of dependency_graph) parent [] @ [child])
                dependency_graph)
       [] rows"

fun first_error :: "mrp_error option list \<Rightarrow> mrp_error option" where
  "first_error [] = None"
| "first_error (None # rest) = first_error rest"
| "first_error (Some e # rest) = Some e"

function check_cycle ::
  "(string \<times> string list) list \<Rightarrow> string \<Rightarrow> string list \<Rightarrow> mrp_error option" where
  "check_cycle dependency_graph item path =
     (if item \<in> set path
      then Some (CircularReference (dropWhile (\<lambda>x. x \<noteq> item) path @ [item]))
      else case map_of dependency_graph item of
             None \<Rightarrow> None
           | Some children \<Rightarrow>
               first_error (map (\<lambda>child. check_cycle dependency_graph child (path @ [item]))
                              children))"
  by pat_completeness auto
termination
proof (relation "measure (\<lambda>(dependency_graph, item, path).
                    card (fst ` set dependency_graph - set path))")
  show "wf (measure (\<lambda>(dependency_graph, item, path).
                    card (fst ` set dependency_graph - set path)))"
    by simp
next
  fix dependency_graph :: "(string \<times> string list) list" and item :: string
    and path :: "string list" and children :: "string list" and child :: string
  assume fresh: "item \<notin> set path" and key: "map_of dependency_graph item = Some children"
  let ?K = "fst ` set dependency_graph"
  from key have "item \<in> ?K" by (auto dest!: map_of_SomeD simp: image_iff) force
  with fresh have "item \<in> ?K - set path" by simp
  moreover have "?K - set (path @ [item]) = (?K - set path) - {item}" by auto
  moreover have "finite (?K - set path)" by simp
  ultimately have "card (?K - set (path @ [item])) < card (?K - set path)"
    using card_Diff1_less [of "?K - set path" item] by simp
  then show "((dependency_graph, child, path @ [item]), (dependency_graph, item, path))
             \<in> measure (\<lambda>(dependency_graph, item, path).
                    card (fst ` set dependency_graph - set path))"
    by simp
qed

declare check_cycle.simps [simp del]

definition check_bom_circular_reference :: "(string \<times> string) list \<Rightarrow> mrp_error option" where
  "check_bom_circular_reference rows =
     (let dependency_graph = build_dependency_graph rows
      in first_error (map (\<lambda>item. check_cycle dependency_graph item [])
                        (map fst dependency_graph)))"

section \<open>Coercion of the input tables (utils.py, validate\_production\_plan; app.py, calculate\_mrp)\<close>





















section \<open>Vocabulary of the properties\<close>

text \<open>An edge of the BOM table, and the walks that start at a root.\<close>

definition edge :: "bom_row list \<Rightarrow> string \<Rightarrow> string \<Rightarrow> bool" where
  "edge bom_data a b = (\<exists>row \<in> set bom_data. parent_code row = a \<and> child_code row = b)"

definition walk_from :: "bom_row list \<Rightarrow> string \<Rightarrow> string list \<Rightarrow> bool" where
  "walk_from bom_data root_item p =
     (p \<noteq> [] \<and> hd p = root_item \<and> successively (edge bom_data) p)"

text \<open>
  The nodes of a tree, each given by the chain of dict entries that leads to it from a
  child of the root, in the order in which the explosion visits them.
\<close>

fun tree_paths :: "bom_tree \<Rightarrow> (string \<times> bom_node) list list" where
  "tree_paths [] = []"
| "tree_paths ((c, BomNode q l ch) # t) =
     ([(c, BomNode q l ch)] # map ((#) (c, BomNode q l ch)) (tree_paths ch)) @ tree_paths t"

definition lead_time_sum :: "(string \<rightharpoonup> int) \<Rightarrow> (string \<times> bom_node) list \<Rightarrow> int" where
  "lead_time_sum production_lead_time_map p =
     sum_list (map (\<lambda>(c, n). dict_get production_lead_time_map c 0) p)"

definition usage_product :: "(string \<times> bom_node) list \<Rightarrow> real" where
  "usage_product p = prod_list (map (\<lambda>(c, n). node_quantity n) p)"

definition path_record ::
  "(string \<rightharpoonup> int) \<Rightarrow> real \<Rightarrow> int \<Rightarrow> nat \<Rightarrow> (string \<times> bom_node) list \<Rightarrow> requirement" where
  "path_record production_lead_time_map q d lvl p =
     \<lparr>req_item = fst (last p),
      req_quantity = q * usage_product p,
      req_date = d - lead_time_sum production_lead_time_map p,
      req_level = lvl + length p\<rparr>"

definition app_path_record ::
  "real \<Rightarrow> int \<Rightarrow> nat \<Rightarrow> (string \<times> bom_node) list \<Rightarrow> requirement" where
  "app_path_record q d lvl p =
     \<lparr>req_item = fst (last p),
      req_quantity = q * usage_product p,
      req_date = d - 7 * int (length p),
      req_level = lvl + length p\<rparr>"

text \<open>
  A chain of tree entries below \<open>parent\<close> follows the BOM table: every step is a row of the
  table with that usage, and the level stored in the node is its depth.
\<close>

fun bom_chain :: "bom_row list \<Rightarrow> string \<Rightarrow> nat \<Rightarrow> (string \<times> bom_node) list \<Rightarrow> bool" where
  "bom_chain bom_data parent level [] = True"
| "bom_chain bom_data parent level ((c, n) # p) =
     (edge (filter (\<lambda>row. usage row = node_quantity n) bom_data) parent c \<and>
      node_level n = level + 1 \<and> bom_chain bom_data c (level + 1) p)"

text \<open>Two small BOM tables: a diamond without a cycle, and one with the cycle B, C, B.\<close>

definition bom_acyclic_example :: "bom_row list" where
  "bom_acyclic_example =
     [\<lparr>parent_code = ''A'', child_code = ''B'', usage = 2\<rparr>,
      \<lparr>parent_code = ''B'', child_code = ''C'', usage = 3\<rparr>,
      \<lparr>parent_code = ''A'', child_code = ''C'', usage = 5\<rparr>]"

definition bom_cyclic_example :: "bom_row list" where
  "bom_cyclic_example =
     [\<lparr>parent_code = ''A'', child_code = ''B'', usage = 2\<rparr>,
      \<lparr>parent_code = ''B'', child_code = ''C'', usage = 3\<rparr>,
      \<lparr>parent_code = ''C'', child_code = ''B'', usage = 5\<rparr>]"

definition classifier_bom_example :: "bom_row list" where
  "classifier_bom_example =
     [\<lparr>parent_code = ''A'', child_code = ''B'', usage = 1\<rparr>,
      \<lparr>parent_code = ''B'', child_code = ''C'', usage = 1\<rparr>]"

definition classifier_inventory_example :: "inventory_row list" where
  "classifier_inventory_example =
     [\<lparr>material_code = ''A'', stock = 0, safety = 0\<rparr>,
      \<lparr>material_code = ''B'', stock = 0, safety = 0\<rparr>,
      \<lparr>material_code = ''C'', stock = 0, safety = 0\<rparr>]"

text \<open>
  What the tables say, read without the dicts of the program: the usage of a material on
  a resource and the capacity of a resource on a date are taken from the last row of the
  table with that key (a later row overwrites an earlier one), and there is none when no
  row has the key. The consumption of a resource on a date is the sum, over the result
  rows of that period, of net quantity times the usage of the row's material on the
  resource; a row whose material does not use the resource adds nothing.
\<close>

definition usage_rate :: "resource_requirement_row list \<Rightarrow> string \<Rightarrow> string \<Rightarrow> real option" where
  "usage_rate resource_requirements m r =
     map_option unit_usage
       (find (\<lambda>q. rr_item q = m \<and> rr_resource q = r) (rev resource_requirements))"

definition capacity_of :: "capacity_row list \<Rightarrow> string \<Rightarrow> int \<Rightarrow> real option" where
  "capacity_of capacity_constraints r d =
     map_option available
       (find (\<lambda>c. cap_resource c = r \<and> cap_date c = d) (rev capacity_constraints))"

definition row_consumption :: "resource_requirement_row list \<Rightarrow> string \<Rightarrow> mrp_row \<Rightarrow> real" where
  "row_consumption resource_requirements r row =
     (case usage_rate resource_requirements (mrp_item row) r of
        None \<Rightarrow> 0
      | Some u \<Rightarrow> net_quantity row * u)"

definition consumption ::
  "resource_requirement_row list \<Rightarrow> mrp_row list \<Rightarrow> string \<Rightarrow> int \<Rightarrow> real" where
  "consumption resource_requirements mrp_results r d =
     sum_list (map (row_consumption resource_requirements r)
                 (filter (\<lambda>row. period row = d) mrp_results))"

definition simple_mrp_row :: "string \<Rightarrow> int \<Rightarrow> real \<Rightarrow> mrp_row" where
  "simple_mrp_row m d n =
     \<lparr>mrp_item = m, period = d, order_date = d, gross_demand = 25, opening_inventory = 20,
      safety_stock = 10, po_receipt = 0, net_quantity = n, closing_inventory = 10, production_lead_time = 0, purchase_lead_time = 0\<rparr>"

text \<open>
  Invariant of the dicts of dicts built by the program: keys are unique at both levels.
  \<open>tot\<close> reads an accumulated total (0 for a missing key), \<open>keyed\<close> says that the key
  is present.
\<close>

definition wf2 :: "('a, 'b, 'v) dict2 \<Rightarrow> bool" where
  "wf2 m = (distinct (map fst m) \<and> (\<forall>(k, inner) \<in> set m. distinct (map fst inner)))"

definition tot :: "('a, 'b, real) dict2 \<Rightarrow> 'a \<Rightarrow> 'b \<Rightarrow> real" where
  "tot u r d = (case lookup2 u r d of None \<Rightarrow> 0 | Some x \<Rightarrow> x)"

definition keyed :: "('a, 'b, real) dict2 \<Rightarrow> 'a \<Rightarrow> 'b \<Rightarrow> bool" where
  "keyed u r d = (lookup2 u r d \<noteq> None)"

text \<open>The capacity example of the specification: net 15 of M on day 5, capacity 100 of R.\<close>

definition capacity_example_rows :: "mrp_row list" where
  "capacity_example_rows = [simple_mrp_row ''M'' 5 15]"

definition capacity_example_caps :: "capacity_row list" where
  "capacity_example_caps = [\<lparr>cap_resource = ''R'', cap_date = 5, available = 100\<rparr>]"

definition capacity_example_rate :: "real \<Rightarrow> resource_requirement_row list" where
  "capacity_example_rate u = [\<lparr>rr_item = ''M'', rr_resource = ''R'', unit_usage = u\<rparr>]"








section \<open>The forward pass of the specification\<close>

text \<open>
  Section 4.4 of the specification, in its words: \<open>lot_size\<close>, the net quantity of one
  period, and the pass over a list of periods with the running inventory. The period
  list of a material is the sorted union of the dates of its demand and of its receipts.
\<close>

definition lot_size :: "real \<Rightarrow> real \<Rightarrow> real \<Rightarrow> real" where
  "lot_size raw minLot multiple =
     (if raw \<le> 0 then 0
      else let base = max raw minLot
           in if multiple > 1 then of_int \<lceil>base / multiple\<rceil> * multiple else base)"






















text \<open>
  The edges a BOM table hands to the validator, and the message of the validator for a
  path on which the last material repeats: the path from the first occurrence on.
\<close>

definition bom_edges :: "bom_row list \<Rightarrow> (string \<times> string) list" where
  "bom_edges bom = map (\<lambda>row. (parent_code row, child_code row)) bom"

fun cycle_message :: "mrp_error \<Rightarrow> mrp_error" where
  "cycle_message (CircularReference p) =
     CircularReference (dropWhile (\<lambda>x. x \<noteq> last p) (butlast p) @ [last p])"
| "cycle_message e = e"








section \<open>Properties\<close>

subsection \<open>Lot sizing\<close>

lemma lot_round_up:
  fixes b m :: int
  assumes m: "1 < m"
  defines "r \<equiv> (if b mod m > 0 then b + (m - b mod m) else b)"
  shows "m dvd r" and "b \<le> r" and "r < b + m" and "m dvd b \<Longrightarrow> r = b"
proof -
  have pos: "0 \<le> b mod m" and lt: "b mod m < m" using m by simp_all
  have eq: "b - b mod m = m * (b div m)" by (simp add: minus_mod_eq_mult_div)
  show "m dvd r"
  proof (cases "b mod m > 0")
    case True
    then have "r = m * (b div m) + m" using eq by (simp add: r_def)
    then show ?thesis by simp
  next
    case False
    then have "b mod m = 0" using pos by simp
    then show ?thesis using False by (simp add: r_def mod_eq_0_iff_dvd)
  qed
  show "b \<le> r" using lt by (simp add: r_def)
  show "r < b + m" using m by (simp add: r_def)
  show "r = b" if "m dvd b" using that by (simp add: r_def)
qed

text \<open>
  C5. \<open>apply_lot_sizing\<close> returns 0 for a quantity that is not positive. Otherwise, with
  \<open>base = max raw minLot\<close>: for a multiple above 1 the result is the least multiple of it
  that is not below \<open>base\<close> (a multiple of \<open>multiple\<close>, at least \<open>base\<close>, less than
  \<open>base + multiple\<close>, and \<open>base\<close> itself when that is a multiple already); for any other
  multiple it is \<open>base\<close>. The four examples of the specification hold.
\<close>

theorem apply_lot_sizing_spec:
  "(raw \<le> 0 \<longrightarrow> apply_lot_sizing raw minLot multiple = 0) \<and>
   (0 < raw \<and> 1 < multiple \<longrightarrow>
      multiple dvd apply_lot_sizing raw minLot multiple \<and>
      max raw minLot \<le> apply_lot_sizing raw minLot multiple \<and>
      apply_lot_sizing raw minLot multiple < max raw minLot + multiple \<and>
      (multiple dvd max raw minLot \<longrightarrow> apply_lot_sizing raw minLot multiple = max raw minLot)) \<and>
   (0 < raw \<and> \<not> 1 < multiple \<longrightarrow> apply_lot_sizing raw minLot multiple = max raw minLot) \<and>
   apply_lot_sizing 5 20 10 = 20 \<and> apply_lot_sizing 25 20 10 = 30 \<and>
   apply_lot_sizing 0 20 10 = 0 \<and> apply_lot_sizing (- 3) 20 10 = 0"
proof -
  have ex: "apply_lot_sizing 5 20 10 = 20 \<and> apply_lot_sizing 25 20 10 = 30 \<and>
   apply_lot_sizing 0 20 10 = 0 \<and> apply_lot_sizing (- 3) 20 10 = 0"
    by (simp add: apply_lot_sizing_def)
  have a: "raw \<le> 0 \<longrightarrow> apply_lot_sizing raw minLot multiple = 0"
    by (simp add: apply_lot_sizing_def)
  have c: "0 < raw \<and> \<not> 1 < multiple \<longrightarrow> apply_lot_sizing raw minLot multiple = max raw minLot"
    by (simp add: apply_lot_sizing_def Let_def)
  have b: "multiple dvd apply_lot_sizing raw minLot multiple \<and>
      max raw minLot \<le> apply_lot_sizing raw minLot multiple \<and>
      apply_lot_sizing raw minLot multiple < max raw minLot + multiple \<and>
      (multiple dvd max raw minLot \<longrightarrow> apply_lot_sizing raw minLot multiple = max raw minLot)"
    if h: "0 < raw" "1 < multiple"
  proof -
    have "apply_lot_sizing raw minLot multiple =
        (if max raw minLot mod multiple > 0
         then max raw minLot + (multiple - max raw minLot mod multiple) else max raw minLot)"
      using h by (simp add: apply_lot_sizing_def Let_def)
    then show ?thesis using lot_round_up [OF h(2), of "max raw minLot"] by presburger
  qed
  from a b c ex show ?thesis by blast
qed

theorem apply_lot_sizing_spec_witness:
  "(0::int) < 25 \<and> (1::int) < 10 \<and> apply_lot_sizing 25 20 10 = 30 \<and> (10::int) dvd 30 \<and> (30::int) < max 25 20 + 10"
  using apply_lot_sizing_spec [of 25 20 10] by (simp add: apply_lot_sizing_def)

subsection \<open>Material classification\<close>

text \<open>
  C10. The label of a material is decided by membership in the three sets alone: the
  materials of the inventory table, the parents and the children of the BOM table. A
  material of the inventory is raw when it is a child and no parent, finished when it is
  a parent and no child, intermediate when it is both, unknown otherwise; a code that is
  not in the inventory gets no row. For the edges (A,B), (B,C) and inventory A, B, C:
  A is finished, B intermediate, C raw.
\<close>

theorem classify_materials_set_algebra:
  "classify_materials bom_data inventory_data m =
     (if m \<in> material_code ` set inventory_data
      then Some (if m \<in> child_code ` set bom_data \<and> m \<notin> parent_code ` set bom_data then Raw
                 else if m \<in> parent_code ` set bom_data \<and> m \<notin> child_code ` set bom_data
                 then Finished
                 else if m \<in> parent_code ` set bom_data \<and> m \<in> child_code ` set bom_data
                 then Intermediate
                 else Unknown)
      else None) \<and>
   classify_materials classifier_bom_example classifier_inventory_example ''A'' = Some Finished \<and>
   classify_materials classifier_bom_example classifier_inventory_example ''B'' = Some Intermediate \<and>
   classify_materials classifier_bom_example classifier_inventory_example ''C'' = Some Raw"
  by (simp add: classify_materials_def Let_def classifier_bom_example_def
        classifier_inventory_example_def)

subsection \<open>BOM tree construction\<close>

lemma update_entries: "set (AList.update k v al) \<subseteq> insert (k, v) (set al)"
  by (induction al) auto

lemma for_children_Inr:
  "for_children f level rows acc = Inr t \<Longrightarrow> row \<in> set rows \<Longrightarrow> \<exists>t'. f row = Inr t'"
  by (induction rows arbitrary: acc) (auto split: sum.splits)

lemma for_children_Inl:
  "for_children f level rows acc = Inl e \<Longrightarrow> \<exists>row \<in> set rows. f row = Inl e"
  by (induction rows arbitrary: acc) (auto split: sum.splits)

lemma for_children_entries:
  "for_children f level rows acc = Inr res \<Longrightarrow> (c, n) \<in> set res \<Longrightarrow>
   (c, n) \<in> set acc \<or>
   (\<exists>row \<in> set rows. \<exists>t'. f row = Inr t' \<and> c = child_code row \<and> n = BomNode (usage row) (level + 1) t')"
proof (induction rows arbitrary: acc)
  case Nil
  then show ?case by simp
next
  case (Cons r rows)
  from Cons.prems(1) obtain t' where ft: "f r = Inr t'"
    and rest: "for_children f level rows (AList.update (child_code r) (BomNode (usage r) (level + 1) t') acc) = Inr res"
    by (auto split: sum.splits)
  from Cons.IH [OF rest Cons.prems(2)] show ?case
  proof
    assume "(c, n) \<in> set (AList.update (child_code r) (BomNode (usage r) (level + 1) t') acc)"
    with update_entries have "(c, n) = (child_code r, BomNode (usage r) (level + 1) t') \<or> (c, n) \<in> set acc"
      by fastforce
    then show ?thesis using ft by auto
  next
    assume "\<exists>row\<in>set rows. \<exists>t'. f row = Inr t' \<and> c = child_code row \<and> n = BomNode (usage row) (level + 1) t'"
    then show ?thesis by auto
  qed
qed

lemma build_success_walks:
  "build_bom_tree x bom level path = Inr t \<Longrightarrow> successively (edge bom) (x # w) \<Longrightarrow>
   distinct (x # w) \<and> set (x # w) \<inter> set path = {}"
proof (induction x bom level path arbitrary: t w rule: build_bom_tree.induct)
  case (1 x bom level path)
  from "1.prems"(1) have fresh: "x \<notin> set path"
    by (subst (asm) build_bom_tree.simps) (auto split: if_splits)
  show ?case
  proof (cases w)
    case Nil
    then show ?thesis using fresh by simp
  next
    case (Cons c w')
    with "1.prems"(2) have e: "edge bom x c" and sw: "successively (edge bom) (c # w')" by auto
    from e obtain row where row: "row \<in> set bom" "parent_code row = x" "child_code row = c"
      by (auto simp: edge_def)
    then have mem: "row \<in> set (filter (\<lambda>row. parent_code row = x) bom)" by simp
    from "1.prems"(1) fresh have
      "for_children (\<lambda>row. build_bom_tree (child_code row) bom (level + 1) (path @ [x])) level
          (filter (\<lambda>row. parent_code row = x) bom) [] = Inr t"
      by (subst (asm) build_bom_tree.simps) simp
    from for_children_Inr [OF this mem] obtain t' where
      "build_bom_tree c bom (level + 1) (path @ [x]) = Inr t'" using row by auto
    from "1.IH" [OF fresh mem, of t' w'] this sw row
    have "distinct (c # w') \<and> set (c # w') \<inter> set (path @ [x]) = {}" by simp
    then show ?thesis using fresh Cons by auto
  qed
qed

lemma build_failure_path:
  "build_bom_tree x bom level path = Inl e \<Longrightarrow> successively (edge bom) (path @ [x]) \<Longrightarrow> distinct path \<Longrightarrow>
   \<exists>anc y. e = CircularReference (path @ anc @ [y]) \<and> successively (edge bom) (path @ anc @ [y]) \<and>
      distinct (path @ anc) \<and> y \<in> set (path @ anc) \<and> (anc = [] \<and> y = x \<or> anc \<noteq> [] \<and> hd anc = x)"
proof (induction x bom level path arbitrary: e rule: build_bom_tree.induct)
  case (1 x bom level path)
  show ?case
  proof (cases "x \<in> set path")
    case True
    with "1.prems" show ?thesis
      by (subst (asm) build_bom_tree.simps) auto
  next
    case False
    with "1.prems"(1) have
      "for_children (\<lambda>row. build_bom_tree (child_code row) bom (level + 1) (path @ [x])) level
          (filter (\<lambda>row. parent_code row = x) bom) [] = Inl e"
      by (subst (asm) build_bom_tree.simps) simp
    from for_children_Inl [OF this] obtain row where
      mem: "row \<in> set (filter (\<lambda>row. parent_code row = x) bom)" and
      err: "build_bom_tree (child_code row) bom (level + 1) (path @ [x]) = Inl e" by auto
    have e: "edge bom x (child_code row)" using mem by (auto simp: edge_def)
    have sw: "successively (edge bom) ((path @ [x]) @ [child_code row])"
      using "1.prems"(2) e by (simp add: successively_append_iff)
    have d: "distinct (path @ [x])" using False "1.prems"(3) by simp
    from "1.IH" [OF False mem err sw d] obtain anc y where
      "e = CircularReference ((path @ [x]) @ anc @ [y])"
      "successively (edge bom) ((path @ [x]) @ anc @ [y])"
      "distinct ((path @ [x]) @ anc)" "y \<in> set ((path @ [x]) @ anc)" by blast
    then show ?thesis
      by (intro exI [of _ "x # anc"] exI [of _ y]) simp
  qed
qed

lemma build_acyclic_example:
  "build_bom_tree ''A'' bom_acyclic_example 0 [] =
     Inr [(''B'', BomNode 2 1 [(''C'', BomNode 3 2 [])]), (''C'', BomNode 5 1 [])]"
  by (simp add: bom_acyclic_example_def build_bom_tree.simps)

lemma build_cyclic_example:
  "build_bom_tree ''A'' bom_cyclic_example 0 [] = Inl (CircularReference [''A'', ''B'', ''C'', ''B''])"
  by (simp add: bom_cyclic_example_def build_bom_tree.simps)

text \<open>
  C3. \<open>build_bom_tree\<close> is total. When no walk of the BOM table that starts at the root
  visits a material twice, the call for the root returns a tree. When some walk from the
  root does, the call raises the circular-reference error, and the path in its message is
  a walk of the table from the root: the ancestors, all different, followed by a material
  that is one of them. No tree is returned in that case.
\<close>

theorem build_bom_tree_cycles:
  "((\<forall>p. walk_from bom_data root_item p \<longrightarrow> distinct p) \<longrightarrow>
      (\<exists>t. build_bom_tree root_item bom_data 0 [] = Inr t)) \<and>
   ((\<exists>p. walk_from bom_data root_item p \<and> \<not> distinct p) \<longrightarrow>
      (\<exists>anc y. build_bom_tree root_item bom_data 0 [] = Inl (CircularReference (anc @ [y])) \<and>
         walk_from bom_data root_item (anc @ [y]) \<and> distinct anc \<and> y \<in> set anc))"
proof -
  let ?b = "build_bom_tree root_item bom_data 0 []"
  have fail: "\<exists>anc y. e = CircularReference (anc @ [y]) \<and>
         walk_from bom_data root_item (anc @ [y]) \<and> distinct anc \<and> y \<in> set anc"
    if "?b = Inl e" for e
  proof -
    from build_failure_path [OF that] obtain anc y where
      a: "e = CircularReference (anc @ [y])" "successively (edge bom_data) (anc @ [y])"
         "distinct anc" "y \<in> set anc" "anc = [] \<and> y = root_item \<or> anc \<noteq> [] \<and> hd anc = root_item"
      by auto
    from a(4) have "anc \<noteq> []" by auto
    with a(5) have "hd (anc @ [y]) = root_item" by simp
    with a show ?thesis by (auto simp: walk_from_def)
  qed
  have ok: "distinct p" if "?b = Inr t" "walk_from bom_data root_item p" for t p
  proof -
    from that(2) obtain w where "p = root_item # w" by (cases p) (auto simp: walk_from_def)
    with that(2) build_success_walks [OF that(1), of w] show ?thesis by (simp add: walk_from_def)
  qed
  show ?thesis
  proof (cases ?b)
    case (Inl e)
    from fail [OF Inl] Inl show ?thesis by (auto simp: walk_from_def) 
  next
    case (Inr t)
    with ok show ?thesis by auto
  qed
qed

theorem build_bom_tree_cycles_witness:
  "\<not> (\<exists>p. walk_from bom_acyclic_example ''A'' p \<and> \<not> distinct p) \<and>
   (\<exists>t. build_bom_tree ''A'' bom_acyclic_example 0 [] = Inr t) \<and>
   walk_from bom_cyclic_example ''A'' [''A'', ''B'', ''C'', ''B''] \<and>
   \<not> distinct [''A'', ''B'', ''C'', ''B''] \<and>
   (\<exists>anc y. build_bom_tree ''A'' bom_cyclic_example 0 [] = Inl (CircularReference (anc @ [y])) \<and>
       walk_from bom_cyclic_example ''A'' (anc @ [y]) \<and> distinct anc \<and> y \<in> set anc)"
proof -
  have w: "walk_from bom_cyclic_example ''A'' [''A'', ''B'', ''C'', ''B'']"
    by (simp add: walk_from_def edge_def bom_cyclic_example_def)
  have nd: "\<not> distinct [''A'', ''B'', ''C'', ''B'']" by simp
  have acyc: "\<not> (\<exists>p. walk_from bom_acyclic_example ''A'' p \<and> \<not> distinct p)"
  proof
    assume "\<exists>p. walk_from bom_acyclic_example ''A'' p \<and> \<not> distinct p"
    then obtain p where p: "walk_from bom_acyclic_example ''A'' p" "\<not> distinct p" by blast
    then obtain w where "p = ''A'' # w" by (cases p) (auto simp: walk_from_def)
    with p build_success_walks [OF build_acyclic_example, of w] show False
      by (simp add: walk_from_def)
  qed
  from acyc w nd build_bom_tree_cycles [of bom_acyclic_example "''A''"]
    build_bom_tree_cycles [of bom_cyclic_example "''A''"]
  show ?thesis by blast
qed

subsection \<open>Explosion\<close>

lemma tree_paths_nonempty: "p \<in> set (tree_paths t) \<Longrightarrow> p \<noteq> []"
  by (induction t rule: tree_paths.induct) auto

lemma tree_paths_node:
  "tree_paths ((c, n) # t) = ([(c, n)] # map ((#) (c, n)) (tree_paths (node_children n))) @ tree_paths t"
  by (cases n) simp

lemma tree_paths_concat:
  "tree_paths t = concat (map (\<lambda>(c, n). [(c, n)] # map ((#) (c, n)) (tree_paths (node_children n))) t)"
  by (induction t rule: tree_paths.induct) auto

lemma path_record_Cons:
  "p \<noteq> [] \<Longrightarrow> path_record plt q d lvl ((c, n) # p) =
     path_record plt (q * node_quantity n) (d - dict_get plt c 0) (lvl + 1) p"
  by (simp add: path_record_def usage_product_def lead_time_sum_def algebra_simps)

lemma app_path_record_Cons:
  "p \<noteq> [] \<Longrightarrow> app_path_record q d lvl ((c, n) # p) =
     app_path_record (q * node_quantity n) (d - 7) (lvl + 1) p"
  by (simp add: app_path_record_def usage_product_def algebra_simps)

lemma explode:
  "get_all_requirements plt item q d t lvl =
     \<lparr>req_item = item, req_quantity = q, req_date = d - dict_get plt item 0, req_level = lvl\<rparr> #
     map (path_record plt q (d - dict_get plt item 0) lvl) (tree_paths t)"
proof (induction plt item q d t lvl rule: get_all_requirements.induct)
  case (1 plt item q d t lvl)
  let ?d = "d - dict_get plt item 0"
  have step: "get_all_requirements plt c (q * node_quantity n) ?d (node_children n) (lvl + 1)
      = map (path_record plt q ?d lvl) ([(c, n)] # map ((#) (c, n)) (tree_paths (node_children n)))"
    if mem: "(c, n) \<in> set t" for c n
  proof -
    have "map (path_record plt q ?d lvl) (map ((#) (c, n)) (tree_paths (node_children n)))
        = map (path_record plt (q * node_quantity n) (?d - dict_get plt c 0) (lvl + 1)) (tree_paths (node_children n))"
      using tree_paths_nonempty by (auto simp: path_record_Cons)
    moreover have "path_record plt q ?d lvl [(c, n)] =
       \<lparr>req_item = c, req_quantity = q * node_quantity n, req_date = ?d - dict_get plt c 0, req_level = lvl + 1\<rparr>"
      by (simp add: path_record_def usage_product_def lead_time_sum_def)
    ultimately show ?thesis
      using "1.IH" [OF refl refl mem refl] by simp
  qed
  have "concat (map (\<lambda>(c, n). get_all_requirements plt c (q * node_quantity n) ?d (node_children n) (lvl + 1)) t)
      = concat (map (\<lambda>(c, n). map (path_record plt q ?d lvl) ([(c, n)] # map ((#) (c, n)) (tree_paths (node_children n)))) t)"
    using step by (intro arg_cong [where f = concat] map_cong) auto
  also have "\<dots> = map (path_record plt q ?d lvl) (tree_paths t)"
    by (subst (2) tree_paths_concat) (simp add: map_concat o_def split_def)
  finally show ?case
    by (subst get_all_requirements.simps) (simp add: Let_def)
qed

lemma app_explode:
  "app_get_all_requirements item q d t lvl =
     \<lparr>req_item = item, req_quantity = q, req_date = d, req_level = lvl\<rparr> #
     map (app_path_record q d lvl) (tree_paths t)"
proof (induction item q d t lvl rule: app_get_all_requirements.induct)
  case (1 item q d t lvl)
  have step: "app_get_all_requirements c (q * node_quantity n) (d - 7) (node_children n) (lvl + 1)
      = map (app_path_record q d lvl) ([(c, n)] # map ((#) (c, n)) (tree_paths (node_children n)))"
    if mem: "(c, n) \<in> set t" for c n
  proof -
    have "map (app_path_record q d lvl) (map ((#) (c, n)) (tree_paths (node_children n)))
        = map (app_path_record (q * node_quantity n) (d - 7) (lvl + 1)) (tree_paths (node_children n))"
      using tree_paths_nonempty by (auto simp: app_path_record_Cons)
    moreover have "app_path_record q d lvl [(c, n)] =
       \<lparr>req_item = c, req_quantity = q * node_quantity n, req_date = d - 7, req_level = lvl + 1\<rparr>"
      by (simp add: app_path_record_def usage_product_def)
    ultimately show ?thesis
      using "1.IH" [OF mem] by simp
  qed
  have "concat (map (\<lambda>(c, n). app_get_all_requirements c (q * node_quantity n) (d - 7) (node_children n) (lvl + 1)) t)
      = concat (map (\<lambda>(c, n). map (app_path_record q d lvl) ([(c, n)] # map ((#) (c, n)) (tree_paths (node_children n)))) t)"
    using step by (intro arg_cong [where f = concat] map_cong) auto
  also have "\<dots> = map (app_path_record q d lvl) (tree_paths t)"
    by (subst (2) tree_paths_concat) (simp add: map_concat o_def split_def)
  finally show ?case
    by (subst app_get_all_requirements.simps) simp
qed

lemma tree_paths_mem:
  "p \<in> set (tree_paths t) \<Longrightarrow>
   \<exists>c n p'. (c, n) \<in> set t \<and> p = (c, n) # p' \<and> (p' = [] \<or> p' \<in> set (tree_paths (node_children n)))"
  by (subst (asm) tree_paths_concat) auto

lemma built_chain:
  "build_bom_tree x bom level path = Inr t \<Longrightarrow> p \<in> set (tree_paths t) \<Longrightarrow> bom_chain bom x level p"
proof (induction x bom level path arbitrary: t p rule: build_bom_tree.induct)
  case (1 x bom level path)
  from "1.prems"(1) have fresh: "x \<notin> set path"
    by (subst (asm) build_bom_tree.simps) (auto split: if_splits)
  let ?f = "\<lambda>row. build_bom_tree (child_code row) bom (level + 1) (path @ [x])"
  let ?rows = "filter (\<lambda>row. parent_code row = x) bom"
  from "1.prems"(1) fresh have fc: "for_children ?f level ?rows [] = Inr t"
    by (subst (asm) build_bom_tree.simps) simp
  from tree_paths_mem [OF "1.prems"(2)] obtain c n p' where
    mem: "(c, n) \<in> set t" and p: "p = (c, n) # p'" and
    p': "p' = [] \<or> p' \<in> set (tree_paths (node_children n))" by blast
  from for_children_entries [OF fc mem] obtain row t' where
    row: "row \<in> set ?rows" and ft: "?f row = Inr t'" and c: "c = child_code row"
    and n: "n = BomNode (usage row) (level + 1) t'" by auto
  have e: "edge (filter (\<lambda>r. usage r = node_quantity n) bom) x c"
    using row c n by (auto simp: edge_def)
  have "bom_chain bom c (level + 1) p'"
  proof (cases "p' = []")
    case True
    then show ?thesis by simp
  next
    case False
    with p' n have "p' \<in> set (tree_paths t')" by simp
    from "1.IH" [OF fresh row ft this] show ?thesis using c by simp
  qed
  then show ?case using e n p by simp
qed

text \<open>
  C6, as amended. In \<open>calculate_advanced_mrp\<close> the record of a node carries the date of
  the plan line minus the production lead times (0 without a record) of the root, of the
  node and of every node between them. In \<open>calculate_mrp\<close> (app.py) there is no lead-time
  table: the root keeps the date of the plan line and a node at depth k carries that date
  minus 7 k days.
\<close>

theorem explosion_dates:
  "map (\<lambda>r. (req_item r, req_date r)) (get_all_requirements plt item q d t lvl) =
     (item, d - dict_get plt item 0) #
     map (\<lambda>p. (fst (last p), d - dict_get plt item 0 - lead_time_sum plt p)) (tree_paths t) \<and>
   map (\<lambda>r. (req_item r, req_date r)) (app_get_all_requirements item q d t lvl) =
     (item, d) # map (\<lambda>p. (fst (last p), d - 7 * int (length p))) (tree_paths t)"
  by (simp add: explode app_explode path_record_def app_path_record_def o_def)

text \<open>
  C6 as stated fails for app.py: product A with the one component B, due on day 100, no
  lead-time record anywhere. The claim gives day 100 for B; the record says day 93.
\<close>

theorem app_explosion_dates_counterexample:
  "map req_date (app_get_all_requirements ''A'' 1 100 [(''B'', BomNode 2 1 [])] 0) \<noteq>
   (100 - dict_get Map.empty ''A'' 0) #
   map (\<lambda>p. 100 - dict_get Map.empty ''A'' 0 - lead_time_sum Map.empty p)
     (tree_paths [(''B'', BomNode 2 1 [])])"
  by (simp add: app_explode app_path_record_def lead_time_sum_def dict_get_def)

lemma for_children_keys:
  "for_children f level rows acc = Inr res \<Longrightarrow> c \<in> fst ` set acc \<union> child_code ` set rows \<Longrightarrow>
   \<exists>n. (c, n) \<in> set res \<and>
     ((c, n) \<in> set acc \<or>
      (\<exists>row \<in> set rows. \<exists>t'. child_code row = c \<and> f row = Inr t' \<and>
          n = BomNode (usage row) (level + 1) t'))"
proof (induction rows arbitrary: acc)
  case Nil
  then show ?case by auto
next
  case (Cons r rows)
  from Cons.prems(1) obtain t' where ft: "f r = Inr t'"
    and rest: "for_children f level rows (AList.update (child_code r) (BomNode (usage r) (level + 1) t') acc) = Inr res"
    by (auto split: sum.splits)
  let ?acc = "AList.update (child_code r) (BomNode (usage r) (level + 1) t') acc"
  have "fst ` set ?acc = insert (child_code r) (fst ` set acc)"
    using dom_update [of "child_code r" "BomNode (usage r) (level + 1) t'" acc] by simp
  with Cons.prems(2) have "c \<in> fst ` set ?acc \<union> child_code ` set rows" by auto
  from Cons.IH [OF rest this] obtain n where n: "(c, n) \<in> set res"
    and alt: "(c, n) \<in> set ?acc \<or>
      (\<exists>row \<in> set rows. \<exists>t'. child_code row = c \<and> f row = Inr t' \<and>
          n = BomNode (usage row) (level + 1) t')" by blast
  from alt show ?case
  proof
    assume "(c, n) \<in> set ?acc"
    with update_entries have "(c, n) = (child_code r, BomNode (usage r) (level + 1) t') \<or> (c, n) \<in> set acc"
      by fastforce
    then show ?thesis using ft n by auto
  next
    assume "\<exists>row \<in> set rows. \<exists>t'. child_code row = c \<and> f row = Inr t' \<and>
          n = BomNode (usage row) (level + 1) t'"
    then show ?thesis using n by auto
  qed
qed

lemma for_children_distinct:
  "for_children f level rows acc = Inr res \<Longrightarrow> distinct (map fst acc) \<Longrightarrow> distinct (map fst res)"
  by (induction rows arbitrary: acc) (auto split: sum.splits simp: distinct_update)

lemma tree_paths_single: "(c, n) \<in> set t \<Longrightarrow> [(c, n)] \<in> set (tree_paths t)"
  by (subst tree_paths_concat) force

lemma tree_paths_extend:
  "(c, n) \<in> set t \<Longrightarrow> p \<in> set (tree_paths (node_children n)) \<Longrightarrow> (c, n) # p \<in> set (tree_paths t)"
  by (subst tree_paths_concat) force

lemma built_complete:
  "build_bom_tree x bom level path = Inr t \<Longrightarrow> w \<noteq> [] \<Longrightarrow> successively (edge bom) (x # w) \<Longrightarrow>
   \<exists>p \<in> set (tree_paths t). map fst p = w"
proof (induction x bom level path arbitrary: t w rule: build_bom_tree.induct)
  case (1 x bom level path)
  from "1.prems"(1) have fresh: "x \<notin> set path"
    by (subst (asm) build_bom_tree.simps) (auto split: if_splits)
  let ?f = "\<lambda>row. build_bom_tree (child_code row) bom (level + 1) (path @ [x])"
  let ?rows = "filter (\<lambda>row. parent_code row = x) bom"
  from "1.prems"(1) fresh have fc: "for_children ?f level ?rows [] = Inr t"
    by (subst (asm) build_bom_tree.simps) simp
  from "1.prems"(2) obtain c w' where w: "w = c # w'" by (cases w) auto
  with "1.prems"(3) have e: "edge bom x c" and sw: "successively (edge bom) (c # w')" by auto
  from e have "c \<in> fst ` set [] \<union> child_code ` set ?rows" by (auto simp: edge_def)
  from for_children_keys [OF fc this] obtain n row t' where
    mem: "(c, n) \<in> set t" and row: "row \<in> set ?rows" and c: "child_code row = c"
    and ft: "?f row = Inr t'" and n: "n = BomNode (usage row) (level + 1) t'" by auto
  show ?case
  proof (cases "w' = []")
    case True
    with tree_paths_single [OF mem] w show ?thesis by force
  next
    case False
    from "1.IH" [OF fresh row ft False] sw c obtain p where
      "p \<in> set (tree_paths t')" "map fst p = w'" by auto
    with tree_paths_extend [OF mem, of p] n w show ?thesis by force
  qed
qed

lemma tree_paths_heads: "p \<in> set (tree_paths t) \<Longrightarrow> fst (hd p) \<in> fst ` set t"
  by (drule tree_paths_mem) force

lemma tree_paths_distinct:
  "distinct (map fst t) \<Longrightarrow>
   (\<And>c n. (c, n) \<in> set t \<Longrightarrow> distinct (map (map fst) (tree_paths (node_children n)))) \<Longrightarrow>
   distinct (map (map fst) (tree_paths t))"
proof (induction t)
  case Nil
  then show ?case by simp
next
  case (Cons a t)
  obtain c n where a: "a = (c, n)" by (cases a)
  have sub: "distinct (map (map fst) (tree_paths (node_children n)))"
    using Cons.prems(2) [of c n] a by simp
  have rest: "distinct (map (map fst) (tree_paths t))"
    using Cons.IH Cons.prems by auto
  have c: "c \<notin> fst ` set t" using Cons.prems(1) a by auto
  have heads: "hd w \<noteq> c \<and> w \<noteq> []" if "w \<in> set (map (map fst) (tree_paths t))" for w
  proof -
    from that obtain p where p: "p \<in> set (tree_paths t)" "w = map fst p" by auto
    from tree_paths_nonempty [OF p(1)] tree_paths_heads [OF p(1)] c p(2) show ?thesis
      by (cases p) auto
  qed
  have ne: "w \<noteq> []" if "w \<in> set (map (map fst) (tree_paths (node_children n)))" for w
    using that tree_paths_nonempty by auto
  let ?X = "map (map fst) (tree_paths (node_children n))"
  let ?Y = "map (map fst) (tree_paths t)"
  have d1: "distinct (map ((#) c) ?X)"
    using sub by (subst distinct_map) (auto intro: inj_onI)
  have n1: "[c] \<notin> set (map ((#) c) ?X)" using ne by auto
  have n2: "[c] \<notin> set ?Y"
  proof
    assume "[c] \<in> set ?Y"
    from heads [OF this] show False by simp
  qed
  have n3: "set (map ((#) c) ?X) \<inter> set ?Y = {}"
  proof (rule ccontr)
    assume "set (map ((#) c) ?X) \<inter> set ?Y \<noteq> {}"
    then obtain w where w: "w \<in> set (map ((#) c) ?X)" "w \<in> set ?Y" by blast
    from w(1) have "hd w = c" by auto
    with heads [OF w(2)] show False by simp
  qed
  have eq: "map (map fst) (tree_paths (a # t)) = ([c] # map ((#) c) ?X) @ ?Y"
    unfolding a tree_paths_node by (simp add: o_def)
  show ?case
    unfolding eq using d1 rest n1 n2 n3 by (simp only: distinct_append distinct.simps set_simps append_Cons Un_iff Int_insert_left_if0 simp_thms) auto
qed

lemma built_distinct:
  "build_bom_tree x bom level path = Inr t \<Longrightarrow> distinct (map (map fst) (tree_paths t))"
proof (induction x bom level path arbitrary: t rule: build_bom_tree.induct)
  case (1 x bom level path)
  from "1.prems"(1) have fresh: "x \<notin> set path"
    by (subst (asm) build_bom_tree.simps) (auto split: if_splits)
  let ?f = "\<lambda>row. build_bom_tree (child_code row) bom (level + 1) (path @ [x])"
  let ?rows = "filter (\<lambda>row. parent_code row = x) bom"
  from "1.prems"(1) fresh have fc: "for_children ?f level ?rows [] = Inr t"
    by (subst (asm) build_bom_tree.simps) simp
  have d: "distinct (map fst t)" using for_children_distinct [OF fc] by simp
  have "distinct (map (map fst) (tree_paths (node_children n)))" if "(c, n) \<in> set t" for c n
  proof -
    from for_children_entries [OF fc that] obtain row t' where
      row: "row \<in> set ?rows" and ft: "?f row = Inr t'"
      and n: "n = BomNode (usage row) (level + 1) t'" by auto
    from "1.IH" [OF fresh row ft] n show ?thesis by simp
  qed
  with d show ?case by (rule tree_paths_distinct)
qed

lemma count_list_distinct: "distinct xs \<Longrightarrow> x \<in> set xs \<Longrightarrow> count_list xs x = 1"
  by (induction xs) (auto simp: count_list_0_iff)

lemma built_once:
  assumes "build_bom_tree x bom level path = Inr t" "w \<noteq> []" "successively (edge bom) (x # w)"
  shows "count_list (map (map fst) (tree_paths t)) w = 1"
proof -
  from built_complete [OF assms] have "w \<in> set (map (map fst) (tree_paths t))" by auto
  with built_distinct [OF assms(1)] show ?thesis
    by (rule count_list_distinct)
qed

text \<open>
  C7. In both programs the record of a node carries the quantity of the plan line times
  the product of the usages stored along its chain, and as level the level of the root
  call plus its depth (the root call has level 0). There is one record per node of the
  tree. In a tree built by \<open>build_bom_tree\<close> every step of a chain is a row of the BOM
  table with the stored usage, and the level stored in a node is its depth; conversely
  every chain of BOM rows that starts at the root is the chain of exactly one node of the
  tree. So a material that is reached along two different parent chains has two nodes and
  two records, each with the quantity of its own chain.
\<close>

theorem explosion_quantities_levels:
  "map (\<lambda>r. (req_item r, req_quantity r, req_level r)) (get_all_requirements plt item q d t lvl) =
     (item, q, lvl) # map (\<lambda>p. (fst (last p), q * usage_product p, lvl + length p)) (tree_paths t) \<and>
   map (\<lambda>r. (req_item r, req_quantity r, req_level r)) (app_get_all_requirements item q d t lvl) =
     (item, q, lvl) # map (\<lambda>p. (fst (last p), q * usage_product p, lvl + length p)) (tree_paths t) \<and>
   (build_bom_tree item bom_data 0 [] = Inr t \<longrightarrow>
      list_all (bom_chain bom_data item 0) (tree_paths t) \<and>
      (\<forall>w. w \<noteq> [] \<and> walk_from bom_data item (item # w) \<longrightarrow>
           count_list (map (map fst) (tree_paths t)) w = 1))"
proof -
  have "count_list (map (map fst) (tree_paths t)) w = 1"
    if "build_bom_tree item bom_data 0 [] = Inr t" "w \<noteq> []" "walk_from bom_data item (item # w)" for w
    using built_once [OF that(1,2)] that(3) by (simp add: walk_from_def)
  then show ?thesis
    by (simp add: explode app_explode path_record_def app_path_record_def o_def list_all_iff built_chain)
qed

theorem explosion_quantities_levels_witness:
  "build_bom_tree ''A'' bom_acyclic_example 0 [] =
     Inr [(''B'', BomNode 2 1 [(''C'', BomNode 3 2 [])]), (''C'', BomNode 5 1 [])] \<and>
   map (\<lambda>r. (req_item r, req_quantity r, req_level r))
     (get_all_requirements Map.empty ''A'' 10 100
        [(''B'', BomNode 2 1 [(''C'', BomNode 3 2 [])]), (''C'', BomNode 5 1 [])] 0) =
     [(''A'', 10, 0), (''B'', 20, 1), (''C'', 60, 2), (''C'', 50, 1)] \<and>
   list_all (bom_chain bom_acyclic_example ''A'' 0)
     (tree_paths [(''B'', BomNode 2 1 [(''C'', BomNode 3 2 [])]), (''C'', BomNode 5 1 [])]) \<and>
   walk_from bom_acyclic_example ''A'' [''A'', ''B'', ''C''] \<and>
   walk_from bom_acyclic_example ''A'' [''A'', ''C''] \<and>
   count_list (map (map fst)
     (tree_paths [(''B'', BomNode 2 1 [(''C'', BomNode 3 2 [])]), (''C'', BomNode 5 1 [])]))
     [''B'', ''C''] = 1 \<and>
   count_list (map (map fst)
     (tree_paths [(''B'', BomNode 2 1 [(''C'', BomNode 3 2 [])]), (''C'', BomNode 5 1 [])]))
     [''C''] = 1"
proof -
  have w1: "walk_from bom_acyclic_example ''A'' [''A'', ''B'', ''C'']"
    by (simp add: walk_from_def edge_def bom_acyclic_example_def)
  have w2: "walk_from bom_acyclic_example ''A'' [''A'', ''C'']"
    by (simp add: walk_from_def edge_def bom_acyclic_example_def)
  from explosion_quantities_levels [of Map.empty "''A''" 10 100
      "[(''B'', BomNode 2 1 [(''C'', BomNode 3 2 [])]), (''C'', BomNode 5 1 [])]" 0 bom_acyclic_example]
    build_acyclic_example w1 w2
  show ?thesis by (simp add: usage_product_def)
qed

subsection \<open>Capacity check\<close>

lemma inner_dict_distinct: "wf2 m \<Longrightarrow> distinct (map fst (inner_dict m k))"
  by (auto simp: wf2_def inner_dict_def split: option.splits dest!: map_of_SomeD)

lemma inner_dict_nested_set:
  "inner_dict (nested_set m k1 k2 v) k =
     (if k = k1 then AList.update k2 v (inner_dict m k1) else inner_dict m k)"
  by (simp add: inner_dict_def nested_set_def update_conv')

lemma lookup2_nested_set:
  "lookup2 (nested_set m k1 k2 v) a b = (if a = k1 \<and> b = k2 then Some v else lookup2 m a b)"
  by (simp add: lookup2_def inner_dict_nested_set update_conv')

lemma wf2_nested_set: "wf2 m \<Longrightarrow> wf2 (nested_set m k1 k2 v)"
proof -
  assume w: "wf2 m"
  have d: "distinct (map fst (AList.update k2 v (inner_dict m k1)))"
    using inner_dict_distinct [OF w] by (simp add: distinct_update)
  have "distinct (map fst (nested_set m k1 k2 v))"
    using w by (simp add: nested_set_def wf2_def distinct_update)
  moreover have "distinct (map fst inner)" if "(k, inner) \<in> set (nested_set m k1 k2 v)" for k inner
  proof -
    from that update_entries [of k1 "AList.update k2 v (inner_dict m k1)" m]
    have "(k, inner) = (k1, AList.update k2 v (inner_dict m k1)) \<or> (k, inner) \<in> set m"
      by (auto simp: nested_set_def)
    then show ?thesis using d w by (auto simp: wf2_def)
  qed
  ultimately show ?thesis by (auto simp: wf2_def)
qed

lemma wf2_Nil: "wf2 []" by (simp add: wf2_def)

lemma wf2_foldl_nested_set:
  "wf2 m \<Longrightarrow> wf2 (foldl (\<lambda>m row. nested_set m (f row) (g row) (h row)) m rows)"
  by (induction rows arbitrary: m) (auto simp: wf2_nested_set)

lemma lookup2_foldl_nested_set:
  "lookup2 (foldl (\<lambda>m row. nested_set m (f row) (g row) (h row)) [] rows) a b =
     map_option h (find (\<lambda>row. f row = a \<and> g row = b) (rev rows))"
proof (induction rows rule: rev_induct)
  case Nil
  then show ?case by (simp add: lookup2_def inner_dict_def)
next
  case (snoc x xs)
  then show ?case by (simp add: lookup2_nested_set)
qed

lemma lookup2_req_map:
  "lookup2 (build_resource_req_map reqs) m r = usage_rate reqs m r"
  by (simp add: build_resource_req_map_def usage_rate_def lookup2_foldl_nested_set)

lemma lookup2_capacity_map:
  "lookup2 (build_capacity_map caps) r d = capacity_of caps r d"
  by (simp add: build_capacity_map_def capacity_of_def lookup2_foldl_nested_set)

lemma wf2_req_map: "wf2 (build_resource_req_map reqs)"
  by (simp add: build_resource_req_map_def wf2_foldl_nested_set wf2_Nil)

lemma tot_nested_add:
  "tot (nested_add u r d x) r' d' = tot u r' d' + (if r' = r \<and> d' = d then x else 0)"
  by (simp add: tot_def nested_add_def lookup2_nested_set)

lemma keyed_nested_add:
  "keyed (nested_add u r d x) r' d' \<longleftrightarrow> (r' = r \<and> d' = d) \<or> keyed u r' d'"
  by (auto simp: keyed_def nested_add_def lookup2_nested_set)

lemma wf2_nested_add: "wf2 u \<Longrightarrow> wf2 (nested_add u r d x)"
  by (simp add: nested_add_def wf2_nested_set)

lemma inner_loop_tot:
  "tot (foldl (\<lambda>u (res, upu). nested_add u res d (q * upu)) u rs) r' d' =
     tot u r' d' + (if d' = d then sum_list (map (\<lambda>(res, upu). if res = r' then q * upu else 0) rs) else 0)"
  by (induction rs arbitrary: u) (auto simp: tot_nested_add)

lemma inner_loop_keyed:
  "keyed (foldl (\<lambda>u (res, upu). nested_add u res d (q * upu)) u rs) r' d' \<longleftrightarrow>
     (d' = d \<and> r' \<in> fst ` set rs) \<or> keyed u r' d'"
proof (induction rs arbitrary: u)
  case Nil
  then show ?case by simp
next
  case (Cons a rs)
  obtain res upu where a: "a = (res, upu)" by (cases a)
  have "keyed (foldl (\<lambda>u (res, upu). nested_add u res d (q * upu)) (nested_add u res d (q * upu)) rs) r' d' \<longleftrightarrow>
     (d' = d \<and> r' \<in> fst ` set rs) \<or> (r' = res \<and> d' = d) \<or> keyed u r' d'"
    unfolding Cons.IH keyed_nested_add ..
  then show ?case using a by auto
qed

lemma inner_loop_wf2:
  "wf2 u \<Longrightarrow> wf2 (foldl (\<lambda>u (res, upu). nested_add u res d (q * upu)) u rs)"
  by (induction rs arbitrary: u) (auto simp: wf2_nested_add)

lemma sum_distinct_keys:
  "distinct (map fst rs) \<Longrightarrow>
   sum_list (map (\<lambda>(res, upu). if res = r' then q * upu else 0) rs) =
     (case map_of rs r' of None \<Rightarrow> 0 | Some upu \<Rightarrow> q * (upu::real))"
proof (induction rs)
  case Nil
  then show ?case by simp
next
  case (Cons a rs)
  obtain k v where a: "a = (k, v)" by (cases a)
  show ?case
  proof (cases "k = r'")
    case True
    with Cons.prems a have "r' \<notin> fst ` set rs" by auto
    then have "map_of rs r' = None" by (simp add: map_of_eq_None_iff)
    with Cons a True show ?thesis by simp
  next
    case False
    with Cons a show ?thesis by simp
  qed
qed

lemma add_row_usage_tot:
  "tot (add_row_usage (build_resource_req_map reqs) u row) r d =
     tot u r d + (if d = period row then row_consumption reqs r row else 0)"
proof (cases "map_of (build_resource_req_map reqs) (mrp_item row)")
  case None
  then have "usage_rate reqs (mrp_item row) r = None"
    by (simp add: lookup2_req_map [symmetric] lookup2_def inner_dict_def)
  with None show ?thesis by (simp add: add_row_usage_def row_consumption_def)
next
  case (Some rs)
  then have rs: "inner_dict (build_resource_req_map reqs) (mrp_item row) = rs"
    by (simp add: inner_dict_def)
  with inner_dict_distinct [OF wf2_req_map, of reqs "mrp_item row"] have d: "distinct (map fst rs)" by simp
  have "usage_rate reqs (mrp_item row) r = map_of rs r"
    using rs by (simp add: lookup2_req_map [symmetric] lookup2_def)
  then show ?thesis using Some sum_distinct_keys [OF d]
    by (simp add: add_row_usage_def inner_loop_tot row_consumption_def)
qed

lemma add_row_usage_keyed:
  "keyed (add_row_usage (build_resource_req_map reqs) u row) r d \<longleftrightarrow>
     keyed u r d \<or> (d = period row \<and> usage_rate reqs (mrp_item row) r \<noteq> None)"
proof (cases "map_of (build_resource_req_map reqs) (mrp_item row)")
  case None
  then have "usage_rate reqs (mrp_item row) r = None"
    by (simp add: lookup2_req_map [symmetric] lookup2_def inner_dict_def)
  with None show ?thesis by (simp add: add_row_usage_def)
next
  case (Some rs)
  then have rs: "inner_dict (build_resource_req_map reqs) (mrp_item row) = rs"
    by (simp add: inner_dict_def)
  have "usage_rate reqs (mrp_item row) r = map_of rs r"
    using rs by (simp add: lookup2_req_map [symmetric] lookup2_def)
  then show ?thesis using Some
    by (auto simp: add_row_usage_def inner_loop_keyed map_of_eq_None_iff)
qed

lemma add_row_usage_wf2: "wf2 u \<Longrightarrow> wf2 (add_row_usage rm u row)"
  by (auto simp: add_row_usage_def inner_loop_wf2 split: option.splits)

lemma usage_loop_tot:
  "tot (foldl (add_row_usage (build_resource_req_map reqs)) u rows) r d =
     tot u r d + sum_list (map (row_consumption reqs r) (filter (\<lambda>row. period row = d) rows))"
  by (induction rows arbitrary: u) (auto simp: add_row_usage_tot)

lemma usage_loop_keyed:
  "keyed (foldl (add_row_usage (build_resource_req_map reqs)) u rows) r d \<longleftrightarrow>
     keyed u r d \<or> (\<exists>row \<in> set rows. period row = d \<and> usage_rate reqs (mrp_item row) r \<noteq> None)"
  by (induction rows arbitrary: u) (auto simp: add_row_usage_keyed)

lemma usage_loop_wf2: "wf2 u \<Longrightarrow> wf2 (foldl (add_row_usage rm) u rows)"
  by (induction rows arbitrary: u) (auto simp: add_row_usage_wf2)

lemma resource_usage_tot:
  "tot (build_resource_usage (build_resource_req_map reqs) mrp) r d = consumption reqs mrp r d"
  unfolding build_resource_usage_def usage_loop_tot consumption_def
  by (simp add: tot_def lookup2_def inner_dict_def)

lemma resource_usage_wf2: "wf2 (build_resource_usage rm mrp)"
  by (simp add: build_resource_usage_def usage_loop_wf2 wf2_Nil)

lemma wf2_entry:
  "wf2 u \<Longrightarrow> (r, dates) \<in> set u \<Longrightarrow> (d, x) \<in> set dates \<Longrightarrow> lookup2 u r d = Some x"
  by (auto simp: wf2_def lookup2_def inner_dict_def)

lemma lookup2_entry:
  "lookup2 u r d = Some x \<Longrightarrow> \<exists>dates. (r, dates) \<in> set u \<and> (d, x) \<in> set dates"
  by (auto simp: lookup2_def inner_dict_def split: option.splits dest!: map_of_SomeD)

lemma distinct_dict2_keys:
  "wf2 u \<Longrightarrow> distinct (concat (map (\<lambda>(r, dates). map (\<lambda>(d, x). (r, d)) dates) u))"
proof (induction u)
  case Nil
  then show ?case by simp
next
  case (Cons a u)
  obtain r dates where a: "a = (r, dates)" by (cases a)
  from Cons.prems a have w: "wf2 u" and dd: "distinct (map fst dates)" and nr: "r \<notin> fst ` set u"
    by (auto simp: wf2_def)
  have "map (\<lambda>(d, x). (r, d)) dates = map (Pair r) (map fst dates)" by (simp add: split_def)
  with dd have d1: "distinct (map (\<lambda>(d, x). (r, d)) dates)" by (simp add: distinct_map inj_on_def)
  have "set (map (\<lambda>(d, x). (r, d)) dates) \<inter> set (concat (map (\<lambda>(r, dates). map (\<lambda>(d, x). (r, d)) dates) u)) = {}"
    using nr by (auto simp: image_iff)
  with d1 Cons.IH [OF w] a show ?case by simp
qed

lemma check_rows:
  "row \<in> set (check_capacity_constraints mrp caps reqs) \<longleftrightarrow>
   (\<exists>r d x. lookup2 (build_resource_usage (build_resource_req_map reqs) mrp) r d = Some x \<and>
      row = capacity_check_result (build_capacity_map caps) r d x)"
proof -
  let ?U = "build_resource_usage (build_resource_req_map reqs) mrp"
  have w: "wf2 ?U" by (rule resource_usage_wf2)
  have "row \<in> set (check_capacity_constraints mrp caps reqs) \<longleftrightarrow>
        (\<exists>r dates d x. (r, dates) \<in> set ?U \<and> (d, x) \<in> set dates \<and>
            row = capacity_check_result (build_capacity_map caps) r d x)"
    by (auto simp: check_capacity_constraints_def Let_def) 
  also have "\<dots> \<longleftrightarrow> (\<exists>r d x. lookup2 ?U r d = Some x \<and>
      row = capacity_check_result (build_capacity_map caps) r d x)"
    using wf2_entry [OF w] lookup2_entry [of ?U] by blast
  finally show ?thesis .
qed

lemma check_keys:
  "map (\<lambda>row. (cc_resource row, cc_date row)) (check_capacity_constraints mrp caps reqs) =
   concat (map (\<lambda>(r, dates). map (\<lambda>(d, x). (r, d)) dates)
             (build_resource_usage (build_resource_req_map reqs) mrp))"
  by (simp add: check_capacity_constraints_def Let_def map_concat o_def split_def
        capacity_check_result_def)

lemma capacity_examples:
  "check_capacity_constraints capacity_example_rows capacity_example_caps (capacity_example_rate 2) =
     [\<lparr>cc_resource = ''R'', cc_date = 5, cc_usage = 30, cc_capacity = Some 100,
       cc_violated = False, cc_overage = 0\<rparr>] \<and>
   check_capacity_constraints capacity_example_rows capacity_example_caps (capacity_example_rate 10) =
     [\<lparr>cc_resource = ''R'', cc_date = 5, cc_usage = 150, cc_capacity = Some 100,
       cc_violated = True, cc_overage = 50\<rparr>]"
  by (simp add: check_capacity_constraints_def capacity_example_rows_def capacity_example_caps_def
      capacity_example_rate_def simple_mrp_row_def build_resource_req_map_def build_capacity_map_def
      build_resource_usage_def add_row_usage_def nested_add_def nested_set_def inner_dict_def
      lookup2_def capacity_check_result_def Let_def)

text \<open>
  C8. Every row returned by \<open>check_capacity_constraints\<close> carries, for its resource and
  date, the consumption (the sum of net quantity times usage per unit over the result
  rows of that date), the capacity of the last capacity record for that resource and
  date (infinite, here \<open>None\<close>, when there is no record), the flag consumption > capacity
  and the overage max(0, consumption - capacity). No two rows share resource and date,
  and every resource and date with nonzero consumption has its row. Net 15 at rate 2
  against capacity 100 gives consumption 30 and no violation; at rate 10 it gives 150, a
  violation and overage 50.
\<close>

theorem check_capacity_constraints_spec:
  "(\<forall>row \<in> set (check_capacity_constraints mrp caps reqs).
      cc_usage row = consumption reqs mrp (cc_resource row) (cc_date row) \<and>
      cc_capacity row = capacity_of caps (cc_resource row) (cc_date row) \<and>
      cc_violated row = (case cc_capacity row of None \<Rightarrow> False | Some c \<Rightarrow> cc_usage row > c) \<and>
      cc_overage row = (case cc_capacity row of None \<Rightarrow> 0 | Some c \<Rightarrow> max 0 (cc_usage row - c))) \<and>
   distinct (map (\<lambda>row. (cc_resource row, cc_date row)) (check_capacity_constraints mrp caps reqs)) \<and>
   (\<forall>r d. consumption reqs mrp r d \<noteq> 0 \<longrightarrow>
      (\<exists>row \<in> set (check_capacity_constraints mrp caps reqs). cc_resource row = r \<and> cc_date row = d)) \<and>
   check_capacity_constraints capacity_example_rows capacity_example_caps (capacity_example_rate 2) =
     [\<lparr>cc_resource = ''R'', cc_date = 5, cc_usage = 30, cc_capacity = Some 100,
       cc_violated = False, cc_overage = 0\<rparr>] \<and>
   check_capacity_constraints capacity_example_rows capacity_example_caps (capacity_example_rate 10) =
     [\<lparr>cc_resource = ''R'', cc_date = 5, cc_usage = 150, cc_capacity = Some 100,
       cc_violated = True, cc_overage = 50\<rparr>]"
proof -
  let ?U = "build_resource_usage (build_resource_req_map reqs) mrp"
  let ?out = "check_capacity_constraints mrp caps reqs"
  have tot: "lookup2 ?U r d = Some x \<Longrightarrow> x = consumption reqs mrp r d" for r d x
    using resource_usage_tot [of reqs mrp r d] by (simp add: tot_def)
  have a: "\<forall>row \<in> set ?out.
      cc_usage row = consumption reqs mrp (cc_resource row) (cc_date row) \<and>
      cc_capacity row = capacity_of caps (cc_resource row) (cc_date row) \<and>
      cc_violated row = (case cc_capacity row of None \<Rightarrow> False | Some c \<Rightarrow> cc_usage row > c) \<and>
      cc_overage row = (case cc_capacity row of None \<Rightarrow> 0 | Some c \<Rightarrow> max 0 (cc_usage row - c))"
  proof
    fix row assume "row \<in> set ?out"
    then obtain r d x where l: "lookup2 ?U r d = Some x"
      and row: "row = capacity_check_result (build_capacity_map caps) r d x"
      unfolding check_rows by blast
    from tot [OF l] row show "cc_usage row = consumption reqs mrp (cc_resource row) (cc_date row) \<and>
      cc_capacity row = capacity_of caps (cc_resource row) (cc_date row) \<and>
      cc_violated row = (case cc_capacity row of None \<Rightarrow> False | Some c \<Rightarrow> cc_usage row > c) \<and>
      cc_overage row = (case cc_capacity row of None \<Rightarrow> 0 | Some c \<Rightarrow> max 0 (cc_usage row - c))"
      by (simp add: capacity_check_result_def Let_def lookup2_capacity_map split: option.splits)
  qed
  have b: "distinct (map (\<lambda>row. (cc_resource row, cc_date row)) ?out)"
    unfolding check_keys by (rule distinct_dict2_keys [OF resource_usage_wf2])
  have c: "\<forall>r d. consumption reqs mrp r d \<noteq> 0 \<longrightarrow>
      (\<exists>row \<in> set ?out. cc_resource row = r \<and> cc_date row = d)"
  proof (intro allI impI)
    fix r d assume nz: "consumption reqs mrp r d \<noteq> 0"
    then have "tot ?U r d \<noteq> 0" by (simp add: resource_usage_tot)
    then obtain x where l: "lookup2 ?U r d = Some x" by (auto simp: tot_def split: option.splits)
    then have "capacity_check_result (build_capacity_map caps) r d x \<in> set ?out"
      unfolding check_rows by blast
    then show "\<exists>row \<in> set ?out. cc_resource row = r \<and> cc_date row = d"
      by (rule bexI [rotated]) (simp add: capacity_check_result_def Let_def)
  qed
  from a b c capacity_examples show ?thesis by blast
qed

theorem check_capacity_constraints_spec_witness:
  "consumption (capacity_example_rate 10) capacity_example_rows ''R'' 5 = 150 \<and>
   (\<exists>row \<in> set (check_capacity_constraints capacity_example_rows capacity_example_caps
                   (capacity_example_rate 10)).
      cc_resource row = ''R'' \<and> cc_date row = 5 \<and> cc_usage row = 150 \<and> cc_violated row \<and>
      cc_overage row = 50)"
proof -
  have c: "consumption (capacity_example_rate 10) capacity_example_rows ''R'' 5 = 150"
    by (simp add: consumption_def capacity_example_rate_def capacity_example_rows_def
        simple_mrp_row_def row_consumption_def usage_rate_def)
  from check_capacity_constraints_spec [of capacity_example_rows capacity_example_caps
      "capacity_example_rate 10"]
  have "check_capacity_constraints capacity_example_rows capacity_example_caps (capacity_example_rate 10) =
     [\<lparr>cc_resource = ''R'', cc_date = 5, cc_usage = 150, cc_capacity = Some 100,
       cc_violated = True, cc_overage = 50\<rparr>]" by blast
  with c show ?thesis by simp
qed

subsection \<open>The planning run: the example\<close>









subsection \<open>The planning run: inventory balance\<close>









subsection \<open>The planning run and the capacity table\<close>













subsection \<open>The solver and the forward pass: where they differ\<close>

























subsection \<open>The solver and the forward pass: where they agree\<close>































subsection \<open>Coercion of the input tables\<close>




























subsection \<open>The cycle check of the validator and the tree construction\<close>

lemma dependency_graph_lookup:
  "map_of (build_dependency_graph rows) a =
     (if a \<in> fst ` set rows then Some (map snd (filter (\<lambda>e. fst e = a) rows)) else None)"
proof (induction rows arbitrary: a rule: rev_induct)
  case Nil
  then show ?case by (simp add: build_dependency_graph_def)
next
  case (snoc x xs)
  obtain p c where x: "x = (p, c)" by (cases x)
  have step: "build_dependency_graph (xs @ [x]) =
      AList.update p (dict_get (map_of (build_dependency_graph xs)) p [] @ [c])
        (build_dependency_graph xs)"
    by (simp add: build_dependency_graph_def x)
  have old: "dict_get (map_of (build_dependency_graph xs)) p [] = map snd (filter (\<lambda>e. fst e = p) xs)"
  proof (cases "p \<in> fst ` set xs")
    case True
    then show ?thesis using snoc by (simp add: dict_get_def)
  next
    case False
    then have "filter (\<lambda>e. fst e = p) xs = []" by (auto simp: filter_empty_conv)
    then show ?thesis using snoc False by (simp add: dict_get_def)
  qed
  show ?case
    unfolding step update_conv' using snoc old x by auto
qed

lemma first_error_simulation:
  "\<forall>row \<in> set rows. g (child_code row) =
      (case f row of Inl e \<Rightarrow> Some (cycle_message e) | Inr t \<Rightarrow> None) \<Longrightarrow>
   first_error (map g (map child_code rows)) =
     (case for_children f level rows acc of Inl e \<Rightarrow> Some (cycle_message e) | Inr t \<Rightarrow> None)"
proof (induction rows arbitrary: acc)
  case Nil
  then show ?case by simp
next
  case (Cons r rows)
  then show ?case by (cases "f r") auto
qed

lemma check_cycle_build:
  "check_cycle (build_dependency_graph (bom_edges bom)) x path =
     (case build_bom_tree x bom level path of
        Inl e \<Rightarrow> Some (cycle_message e)
      | Inr t \<Rightarrow> None)"
proof (induction x bom level path rule: build_bom_tree.induct)
  case (1 x bom level path)
  let ?g = "build_dependency_graph (bom_edges bom)"
  let ?rows = "filter (\<lambda>row. parent_code row = x) bom"
  show ?case
  proof (cases "x \<in> set path")
    case True
    then show ?thesis
      by (subst check_cycle.simps, subst build_bom_tree.simps) simp
  next
    case False
    have children: "map snd (filter (\<lambda>e. fst e = x) (bom_edges bom)) = map child_code ?rows"
      by (induction bom) (auto simp: bom_edges_def)
    have sim: "first_error (map (\<lambda>child. check_cycle ?g child (path @ [x])) (map child_code ?rows)) =
        (case for_children (\<lambda>row. build_bom_tree (child_code row) bom (level + 1) (path @ [x]))
                level ?rows [] of Inl e \<Rightarrow> Some (cycle_message e) | Inr t \<Rightarrow> None)"
      by (rule first_error_simulation) (simp add: "1.IH" [OF False])
    show ?thesis
    proof (cases "x \<in> fst ` set (bom_edges bom)")
      case True
      then have "map_of ?g x = Some (map child_code ?rows)"
        by (simp add: dependency_graph_lookup children)
      with False sim show ?thesis
        by (subst check_cycle.simps, subst build_bom_tree.simps) simp
    next
      case nokey: False
      then have "map_of ?g x = None" by (simp add: dependency_graph_lookup)
      moreover from nokey have "?rows = []"
        by (auto simp: filter_empty_conv bom_edges_def image_iff)
      ultimately show ?thesis using False
        by (subst check_cycle.simps, subst build_bom_tree.simps) simp
    qed
  qed
qed

lemma first_error_None: "first_error xs = None \<longleftrightarrow> (\<forall>x \<in> set xs. x = None)"
  by (induction xs rule: first_error.induct) auto

lemma first_error_Some: "first_error xs = Some e \<Longrightarrow> Some e \<in> set xs"
  by (induction xs rule: first_error.induct) auto

lemma dependency_graph_keys: "fst ` set (build_dependency_graph rows) = fst ` set rows"
proof -
  have "a \<in> fst ` set (build_dependency_graph rows) \<longleftrightarrow> a \<in> fst ` set rows" for a
  proof -
    have "a \<in> fst ` set (build_dependency_graph rows) \<longleftrightarrow>
        map_of (build_dependency_graph rows) a \<noteq> None"
      by (simp add: map_of_eq_None_iff)
    also have "\<dots> \<longleftrightarrow> a \<in> fst ` set rows"
      by (simp add: dependency_graph_lookup)
    finally show ?thesis .
  qed
  then show ?thesis by blast
qed

lemma validator_accepts_iff:
  "check_bom_circular_reference (bom_edges bom) = None \<longleftrightarrow>
     (\<forall>p. successively (edge bom) p \<longrightarrow> distinct p)"
proof
  assume ok: "check_bom_circular_reference (bom_edges bom) = None"
  show "\<forall>p. successively (edge bom) p \<longrightarrow> distinct p"
  proof (intro allI impI)
    fix p assume w: "successively (edge bom) p"
    show "distinct p"
    proof (cases p)
      case Nil
      then show ?thesis by simp
    next
      case (Cons x q)
      show ?thesis
      proof (cases q)
        case Nil
        with Cons show ?thesis by simp
      next
        case (Cons y r)
        with \<open>p = x # q\<close> w have "edge bom x y" by simp
        then have "x \<in> fst ` set (bom_edges bom)"
          by (auto simp: edge_def bom_edges_def image_iff)
        then have "x \<in> set (map fst (build_dependency_graph (bom_edges bom)))"
          by (simp add: dependency_graph_keys)
        with ok have "check_cycle (build_dependency_graph (bom_edges bom)) x [] = None"
          by (auto simp: check_bom_circular_reference_def Let_def first_error_None)
        then obtain t where "build_bom_tree x bom 0 [] = Inr t"
          using check_cycle_build [of bom x "[]" 0] by (auto split: sum.splits)
        from build_success_walks [OF this, of q] w \<open>p = x # q\<close> show ?thesis by simp
      qed
    qed
  qed
next
  assume acyclic: "\<forall>p. successively (edge bom) p \<longrightarrow> distinct p"
  show "check_bom_circular_reference (bom_edges bom) = None"
  proof (rule ccontr)
    assume "check_bom_circular_reference (bom_edges bom) \<noteq> None"
    then obtain e where "check_bom_circular_reference (bom_edges bom) = Some e" by auto
    from first_error_Some [OF this [unfolded check_bom_circular_reference_def Let_def]]
    obtain x where "check_cycle (build_dependency_graph (bom_edges bom)) x [] = Some e" by auto
    then obtain e' where "build_bom_tree x bom 0 [] = Inl e'"
      using check_cycle_build [of bom x "[]" 0] by (auto split: sum.splits)
    from build_failure_path [OF this] obtain anc y where
      "successively (edge bom) ([] @ anc @ [y])" "y \<in> set ([] @ anc)" by auto
    with acyclic have "distinct (anc @ [y])" "y \<in> set anc" by auto
    then show False by simp
  qed
qed

text \<open>
  The message of the validator is the tail of the path that \<open>build_bom_tree\<close> reports
  for the same start: for the table with the cycle B, C, B it is B, C, B, where the tree
  construction from A reports A, B, C, B.
\<close>

lemma validator_message:
  "check_bom_circular_reference (bom_edges bom) = Some e \<Longrightarrow>
   \<exists>x anc y. build_bom_tree x bom 0 [] = Inl (CircularReference (anc @ [y])) \<and> y \<in> set anc \<and>
      e = CircularReference (dropWhile (\<lambda>z. z \<noteq> y) anc @ [y])"
proof -
  assume "check_bom_circular_reference (bom_edges bom) = Some e"
  from first_error_Some [OF this [unfolded check_bom_circular_reference_def Let_def]]
  obtain x where c: "check_cycle (build_dependency_graph (bom_edges bom)) x [] = Some e" by auto
  then obtain e' where b: "build_bom_tree x bom 0 [] = Inl e'" and e: "e = cycle_message e'"
    using check_cycle_build [of bom x "[]" 0] by (auto split: sum.splits)
  from build_failure_path [OF b] obtain anc y where
    "e' = CircularReference (anc @ [y])" "y \<in> set anc" by auto
  with b e show ?thesis by auto
qed

lemma validator_example:
  "check_bom_circular_reference (bom_edges bom_cyclic_example) =
     Some (CircularReference [''B'', ''C'', ''B''])"
  by (simp add: check_bom_circular_reference_def build_dependency_graph_def bom_edges_def
      bom_cyclic_example_def dict_get_def check_cycle.simps Let_def)

subsection \<open>Lot sizing of the specification and of the program\<close>

text \<open>
  On whole numbers the \<open>lot_size\<close> of the specification is \<open>apply_lot_sizing\<close>.
\<close>

lemma round_up_int:
  fixes b m :: int
  assumes m: "1 < m"
  shows "- (- b div m) * m = (if b mod m > 0 then b + (m - b mod m) else b)"
proof -
  from m have m0: "m \<noteq> 0" by simp
  have d: "- b div m = (if b mod m = 0 then - (b div m) else - (b div m) - 1)"
    by (rule zdiv_zminus1_eq_if [OF m0])
  have pos: "0 \<le> b mod m" using m by simp
  have eq: "b = b div m * m + b mod m" by simp
  show ?thesis
  proof (cases "b mod m = 0")
    case z: True
    then have "- (- b div m) * m = b div m * m" using d by simp
    also have "\<dots> = b" using eq z by simp
    finally show ?thesis using z by simp
  next
    case nz: False
    then have "- (- b div m) * m = (b div m + 1) * m" using d by simp
    also have "\<dots> = b div m * m + m" by (simp add: algebra_simps)
    also have "\<dots> = b + (m - b mod m)" using eq by linarith
    finally show ?thesis using nz pos by simp
  qed
qed

lemma ceiling_round_up:
  fixes b m :: int
  assumes m: "1 < m"
  shows "of_int \<lceil>real_of_int b / of_int m\<rceil> * real_of_int m =
         of_int (if b mod m > 0 then b + (m - b mod m) else b)"
proof -
  have "\<lceil>real_of_int b / of_int m\<rceil> = - (- b div m)" by (rule ceiling_divide_eq_div)
  then have "of_int \<lceil>real_of_int b / of_int m\<rceil> * real_of_int m = of_int (- (- b div m) * m)"
    by (simp only: of_int_mult)
  then show ?thesis by (simp only: round_up_int [OF m])
qed

lemma lot_size_of_int:
  "lot_size (of_int q) (of_int ml) (of_int m) = of_int (apply_lot_sizing q ml m)"
proof (cases "q \<le> 0")
  case True
  then have "apply_lot_sizing q ml m = 0" by (simp add: apply_lot_sizing_def)
  moreover from True have "lot_size (of_int q) (of_int ml) (of_int m) = 0"
    by (simp add: lot_size_def)
  ultimately show ?thesis by simp
next
  case False
  let ?b = "max q ml"
  have base: "max (real_of_int q) (of_int ml) = of_int ?b" by (simp add: max_def)
  have l: "lot_size (of_int q) (of_int ml) (of_int m) =
      (if 1 < m then of_int \<lceil>real_of_int ?b / of_int m\<rceil> * real_of_int m else of_int ?b)"
    using False unfolding lot_size_def Let_def base by simp
  have r: "apply_lot_sizing q ml m =
      (if 1 < m then (if ?b mod m > 0 then ?b + (m - ?b mod m) else ?b) else ?b)"
    using False unfolding apply_lot_sizing_def Let_def by simp
  show ?thesis
  proof (cases "1 < m")
    case True
    from l True have "lot_size (of_int q) (of_int ml) (of_int m) =
        of_int \<lceil>real_of_int ?b / of_int m\<rceil> * real_of_int m" by (simp only: if_True)
    also have "\<dots> = of_int (if ?b mod m > 0 then ?b + (m - ?b mod m) else ?b)"
      by (rule ceiling_round_up [OF True])
    also have "\<dots> = of_int (apply_lot_sizing q ml m)" using r True by (simp only: if_True)
    finally show ?thesis .
  next
    case nomult: False
    from l r nomult show ?thesis by (simp only: if_False)
  qed
qed

end
